theory Spec2Isabelle
  imports Main "HOL-Library.Multiset" "HOL-Library.Sublist" "HOL-Library.Word"
begin

unbundle bit_operations_syntax

section \<open>Python text\<close>

text \<open>
  A Python \<open>str\<close> is a sequence of Unicode code points, and \<open>len\<close>, slicing, \<open>replace\<close>,
  \<open>split\<close> and the \<open>re\<close> module all work on code points. A string is therefore a list of
  natural numbers; \<open>str\<close> turns an ASCII literal into such a list.
\<close>

type_synonym ustr = "nat list"

definition str :: "string \<Rightarrow> ustr" where
  "str s = map of_char s"

text \<open>
  What the source takes from Python's standard library and its Unicode database, and which
  is not part of the repository: the character-reference substitution inside
  \<open>html.unescape\<close>, and the Unicode classes "decimal digit" and "alphanumeric" beyond
  ASCII. They are parameters of the model; every theorem holds for all of them.
\<close>

record pylib =
  charref_sub :: "ustr \<Rightarrow> ustr"
  uni_decimal :: "nat \<Rightarrow> bool"
  uni_alnum :: "nat \<Rightarrow> bool"

text \<open>
  \<open>\s\<close> in a \<open>str\<close> pattern, \<open>str.isspace\<close> and the separator of \<open>str.split()\<close> are the same
  class: tab to carriage return, the four separators U+001C to U+001F, space, U+0085,
  U+00A0, U+1680, U+2000 to U+200A, U+2028, U+2029, U+202F, U+205F and U+3000.
\<close>

definition is_space :: "nat \<Rightarrow> bool" where
  "is_space c = (c \<in> {9, 10, 11, 12, 13, 28, 29, 30, 31, 32, 133, 160, 5760,
       8232, 8233, 8239, 8287, 12288} \<or> (8192 \<le> c \<and> c \<le> 8202))"

definition is_digit :: "pylib \<Rightarrow> nat \<Rightarrow> bool" where
  "is_digit L c = ((48 \<le> c \<and> c \<le> 57) \<or> (128 \<le> c \<and> uni_decimal L c))"

definition is_word :: "pylib \<Rightarrow> nat \<Rightarrow> bool" where
  "is_word L c = ((48 \<le> c \<and> c \<le> 57) \<or> (65 \<le> c \<and> c \<le> 90) \<or> (97 \<le> c \<and> c \<le> 122)
       \<or> c = 95 \<or> (128 \<le> c \<and> uni_alnum L c))"

subsection \<open>The regular expressions of the source\<close>

text \<open>
  Every pattern of \<open>helpers.py\<close> and \<open>data.py\<close> is a sequence of these atoms: a literal
  character, one character of a class (\<open>\W\<close>), a greedy repetition of a class with a least
  count (\<open>\s*\<close> is \<open>Rep is_space 0\<close>, \<open>\s+\<close> is \<open>Rep is_space 1\<close>), a one-character
  lookbehind \<open>(?<=c)\<close> and lookahead \<open>(?=c)\<close>, \<open>^\<close> and \<open>$\<close> (without the MULTILINE flag:
  \<open>^\<close> is the start of the text, \<open>$\<close> is its end or the place before a final line feed).
\<close>

datatype atom = Lit nat | One "nat \<Rightarrow> bool" | Rep "nat \<Rightarrow> bool" nat
  | Behind nat | Ahead nat | Bol | Eol

fun first_some :: "('a \<Rightarrow> 'b option) \<Rightarrow> 'a list \<Rightarrow> 'b option" where
  "first_some f [] = None"
| "first_some f (x # xs) = (case f x of Some y \<Rightarrow> Some y | None \<Rightarrow> first_some f xs)"

text \<open>
  The backtracking matcher at one position. \<open>pre\<close> is the text before the position,
  last character first; \<open>rest\<close> the text from the position on; \<open>n\<close> the characters consumed
  so far. The result is the length of the first match in the engine's order of
  preference (a greedy repetition tries its longest run first and gives characters back
  one at a time). \<open>adv\<close> is the engine's \<open>must_advance\<close>: an empty match at this position is
  refused, and the matcher backtracks for another one.
\<close>

primrec match_here :: "atom list \<Rightarrow> ustr \<Rightarrow> ustr \<Rightarrow> bool \<Rightarrow> nat \<Rightarrow> nat option" where
  "match_here [] pre rest adv n = (if adv \<and> n = 0 then None else Some n)"
| "match_here (a # as) pre rest adv n =
     (case a of
        Lit c \<Rightarrow> (case rest of [] \<Rightarrow> None
                  | x # xs \<Rightarrow> if x = c then match_here as (x # pre) xs adv (Suc n) else None)
      | One P \<Rightarrow> (case rest of [] \<Rightarrow> None
                  | x # xs \<Rightarrow> if P x then match_here as (x # pre) xs adv (Suc n) else None)
      | Rep P lo \<Rightarrow>
          first_some (\<lambda>k. match_here as (rev (take k rest) @ pre) (drop k rest) adv (n + k))
            (rev [lo ..< Suc (length (takeWhile P rest))])
      | Behind c \<Rightarrow> (case pre of [] \<Rightarrow> None
                  | p # _ \<Rightarrow> if p = c then match_here as pre rest adv n else None)
      | Ahead c \<Rightarrow> (case rest of [] \<Rightarrow> None
                  | x # _ \<Rightarrow> if x = c then match_here as pre rest adv n else None)
      | Bol \<Rightarrow> (if pre = [] then match_here as pre rest adv n else None)
      | Eol \<Rightarrow> (if rest = [] \<or> rest = [10] then match_here as pre rest adv n else None))"

lemma first_some_SomeD: "first_some f xs = Some y \<Longrightarrow> \<exists>x \<in> set xs. f x = Some y"
  by (induction xs) (auto split: option.splits)

lemma match_here_bounds:
  "match_here pat pre rest adv n = Some m \<Longrightarrow>
     n \<le> m \<and> m - n \<le> length rest \<and> (adv \<longrightarrow> 0 < m)"
proof (induction pat arbitrary: pre rest n)
  case Nil
  then show ?case by (auto split: if_splits)
next
  case (Cons a pat)
  show ?case
  proof (cases a)
    case (Rep P lo)
    with Cons.prems have "first_some
        (\<lambda>k. match_here pat (rev (take k rest) @ pre) (drop k rest) adv (n + k))
        (rev [lo ..< Suc (length (takeWhile P rest))]) = Some m"
      by simp
    from first_some_SomeD [OF this]
    obtain k where k: "k \<in> set (rev [lo ..< Suc (length (takeWhile P rest))])"
      and m: "match_here pat (rev (take k rest) @ pre) (drop k rest) adv (n + k) = Some m"
      by blast
    from k have "k \<le> length rest"
      using length_takeWhile_le [of P rest] by auto
    with Cons.IH [OF m] show ?thesis by auto
  qed (use Cons in \<open>fastforce split: list.splits if_splits\<close>)+
qed

text \<open>
  \<open>re.sub(pattern, repl, text)\<close> for a replacement without group references: the loop of
  CPython's \<open>pattern_subx\<close>. It searches from the end of the last match, copies the text
  it passes over, writes \<open>repl\<close> for every match, and after an empty match searches again
  from the same place with \<open>must_advance\<close> set (Python 3.7 and later: an empty match next to
  a previous match is replaced too).
\<close>

function re_sub_from :: "atom list \<Rightarrow> ustr \<Rightarrow> ustr \<Rightarrow> ustr \<Rightarrow> bool \<Rightarrow> ustr" where
  "re_sub_from pat repl pre rest adv =
     (case match_here pat pre rest adv 0 of
        Some k \<Rightarrow> repl @ re_sub_from pat repl (rev (take k rest) @ pre) (drop k rest) (k = 0)
      | None \<Rightarrow> (case rest of [] \<Rightarrow> []
                 | c # cs \<Rightarrow> c # re_sub_from pat repl (c # pre) cs False))"
  by pat_completeness auto
termination
proof (relation "measure (\<lambda>(pat, repl, pre, rest, adv). 2 * length rest + (if adv then 0 else 1))",
    goal_cases)
  case 1
  show ?case by simp
next
  case 2
  then show ?case by simp
next
  case (3 pat repl pre rest adv k)
  from match_here_bounds [OF 3] show ?case by (cases k) auto
qed

declare re_sub_from.simps [simp del]

definition re_sub :: "atom list \<Rightarrow> ustr \<Rightarrow> ustr \<Rightarrow> ustr" where
  "re_sub pat repl text = re_sub_from pat repl [] text False"

subsection \<open>String methods\<close>

text \<open>\<open>text.replace(old, new)\<close> for a non-empty \<open>old\<close>: every occurrence, left to right,
  without overlap.\<close>

function py_replace :: "ustr \<Rightarrow> ustr \<Rightarrow> ustr \<Rightarrow> ustr" where
  "py_replace old new [] = []"
| "py_replace old new (c # cs) =
     (if old \<noteq> [] \<and> prefix old (c # cs)
      then new @ py_replace old new (drop (length old) (c # cs))
      else c # py_replace old new cs)"
  by pat_completeness auto
termination
  by (relation "measure (\<lambda>(old, new, text). length text)") (auto simp: neq_Nil_conv)

text \<open>\<open>text.split(sep)[0]\<close> for a non-empty \<open>sep\<close>: the text before the first occurrence of
  \<open>sep\<close>, the whole text when there is none. The list \<open>split\<close> returns is never empty, so
  the index 0 never raises.\<close>

fun before_first :: "ustr \<Rightarrow> ustr \<Rightarrow> ustr" where
  "before_first sep [] = []"
| "before_first sep (c # cs) = (if prefix sep (c # cs) then [] else c # before_first sep cs)"

text \<open>\<open>text.split()\<close>: the maximal runs of characters that are not whitespace.\<close>

function py_split :: "ustr \<Rightarrow> ustr list" where
  "py_split s =
     (case dropWhile is_space s of
        [] \<Rightarrow> []
      | c # cs \<Rightarrow> (c # takeWhile (\<lambda>x. \<not> is_space x) cs)
                   # py_split (dropWhile (\<lambda>x. \<not> is_space x) cs))"
  by pat_completeness auto
termination
proof (relation "measure length", goal_cases)
  case 1
  show ?case by simp
next
  case (2 s c cs)
  have "length (dropWhile (\<lambda>x. \<not> is_space x) cs) \<le> length cs"
    by (rule length_dropWhile_le)
  moreover have "length (c # cs) \<le> length s"
    using length_dropWhile_le [of is_space s] 2 by simp
  ultimately show ?case by simp
qed

declare py_split.simps [simp del]

text \<open>\<open>sep.join(words)\<close>.\<close>

fun py_join :: "ustr \<Rightarrow> ustr list \<Rightarrow> ustr" where
  "py_join sep [] = []"
| "py_join sep [w] = w"
| "py_join sep (w # v # ws) = w @ sep @ py_join sep (v # ws)"

section \<open>The normalizer (helpers.py, data.py)\<close>

text \<open>
  \<open>clean_text\<close>, statement by statement. The second statement is
  \<^verbatim>\<open>text.replace(r'\r\n', '\n')\<close>: its first argument is a raw string, the four characters
  backslash, r, backslash, n.
\<close>

definition clean_text :: "ustr \<Rightarrow> ustr" where
  "clean_text text0 =
     (let text1 = py_replace [160] [32] text0;
          text2 = py_replace [92, 114, 92, 110] [10] text1;
          text3 = re_sub [Behind 10, Rep is_space 0, Ahead 10] [10] text2;
          text4 = re_sub [Bol, Rep is_space 0, Lit 10] [] text3;
          text5 = re_sub [Lit 10, Rep is_space 0, Eol] [] text4;
          text6 = re_sub [Rep (\<lambda>c. c = 32 \<or> c = 9) 1, Lit 10] [10] text5
      in text6)"

datatype py_error = ValueError | TypeError

text \<open>The dictionary \<open>JURISDICTIONS\<close> of \<open>format_citation\<close>, in the order of the source.\<close>

definition JURISDICTIONS :: "(ustr \<times> ustr) list" where
  "JURISDICTIONS =
     [(str ''commonwealth'', str ''Cth''),
      (str ''new_south_wales'', str ''NSW''),
      (str ''victoria'', str ''Vic''),
      (str ''queensland'', str ''Qld''),
      (str ''south_australia'', str ''SA''),
      (str ''western_australia'', str ''WA''),
      (str ''tasmania'', str ''Tas''),
      (str ''northern_territory'', str ''NT''),
      (str ''australian_capital_territory'', str ''ACT''),
      (str ''norfolk_island'', str ''NI'')]"

text \<open>\<open>html.unescape\<close> returns its argument when it holds no ampersand, and the
  character-reference substitution of the library otherwise.\<close>

definition html_unescape :: "pylib \<Rightarrow> ustr \<Rightarrow> ustr" where
  "html_unescape L s = (if 38 \<in> set s then charref_sub L s else s)"

text \<open>\<^verbatim>\<open>re.sub(r' No\s+\d+$', '', title)\<close>\<close>

definition strip_no :: "pylib \<Rightarrow> ustr \<Rightarrow> ustr" where
  "strip_no L title =
     re_sub [Lit 32, Lit 78, Lit 111, Rep is_space 1, Rep (is_digit L) 1, Eol] [] title"

definition paren :: "ustr \<Rightarrow> ustr" where
  "paren abbr = 40 # abbr @ [41]"

definition format_citation :: "pylib \<Rightarrow> ustr \<Rightarrow> ustr \<Rightarrow> ustr \<Rightarrow> py_error + ustr" where
  "format_citation L title0 type jurisdiction =
     (let title1 = html_unescape L title0 in
      if type \<noteq> str ''decision'' then
        (let title2 = strip_no L title1 in
         case map_of JURISDICTIONS jurisdiction of
           None \<Rightarrow> Inl ValueError
         | Some abbreviated_jurisdiction \<Rightarrow>
             (let title3 = before_first (paren abbreviated_jurisdiction) title2;
                  title4 = title3 @ [32] @ paren abbreviated_jurisdiction;
                  title5 = re_sub [Rep is_space 1] [32] title4
              in Inr (py_join [32] (py_split title5))))
      else
        (let title5 = re_sub [Rep is_space 1] [32] title1
         in Inr (py_join [32] (py_split title5))))"

section \<open>The data model (data.py)\<close>

subsection \<open>Request\<close>

text \<open>
  A Python \<open>dict\<close> is the list of its items in insertion order; its keys are distinct.
  \<open>frozendict\<close> (the package \<open>frozndict\<close>, which is not part of the repository) is a \<open>dict\<close>
  subclass: it keeps the items, compares as a \<open>dict\<close> does, and hashes the
  \<open>frozenset\<close> of its items.
\<close>

type_synonym 'v pydict = "(ustr \<times> 'v) list"

definition frozendict :: "'v pydict \<Rightarrow> 'v pydict" where
  "frozendict d = d"

text \<open>\<open>dict.__eq__\<close>: the same number of items, and every key of the left operand is a key of
  the right one with an equal value.\<close>

definition dict_eq :: "'v pydict \<Rightarrow> 'v pydict \<Rightarrow> bool" where
  "dict_eq a b = (length a = length b \<and> list_all (\<lambda>(k, v). map_of b k = Some v) a)"

record 'v request =
  req_path :: ustr
  req_method :: ustr
  req_data :: "'v pydict"
  req_headers :: "'v pydict"
  req_encoding :: ustr
  req_selenium :: bool

text \<open>The constructor with \<open>__post_init__\<close>: \<open>data\<close> and \<open>headers\<close> become \<open>frozendict\<close>s.\<close>

definition Request :: "ustr \<Rightarrow> ustr \<Rightarrow> 'v pydict \<Rightarrow> 'v pydict \<Rightarrow> ustr \<Rightarrow> bool \<Rightarrow> 'v request" where
  "Request path method data headers encoding selenium =
     \<lparr>req_path = path, req_method = method, req_data = frozendict data,
      req_headers = frozendict headers, req_encoding = encoding, req_selenium = selenium\<rparr>"

text \<open>The \<open>__eq__\<close> that \<open>msgspec.Struct\<close> generates: field by field, in the order of
  declaration.\<close>

definition request_eq :: "'v request \<Rightarrow> 'v request \<Rightarrow> bool" where
  "request_eq r1 r2 =
     (req_path r1 = req_path r2 \<and> req_method r1 = req_method r2
      \<and> dict_eq (req_data r1) (req_data r2) \<and> dict_eq (req_headers r1) (req_headers r2)
      \<and> req_encoding r1 = req_encoding r2 \<and> req_selenium r1 = req_selenium r2)"

text \<open>
  The hash functions of the interpreter and of \<open>msgspec\<close> are parameters: the hash of a
  string, of a truth value and of a mapping's value, the combination of the hashes of a
  tuple's items and of a struct's fields, and the two steps of the \<open>frozenset\<close> hash, which
  scrambles the hash of every element, combines the scrambled hashes with exclusive or,
  and mixes the number of elements into the result.
\<close>

record 'v hashing =
  hash_str :: "ustr \<Rightarrow> 64 word"
  hash_bool :: "bool \<Rightarrow> 64 word"
  hash_value :: "'v \<Rightarrow> 64 word"
  hash_tuple :: "64 word list \<Rightarrow> 64 word"
  hash_struct :: "64 word list \<Rightarrow> 64 word"
  shuffle_bits :: "64 word \<Rightarrow> 64 word"
  finish_set :: "64 word \<Rightarrow> nat \<Rightarrow> 64 word"

definition hash_frozenset :: "('v, 'x) hashing_scheme \<Rightarrow> 64 word list \<Rightarrow> 64 word" where
  "hash_frozenset H hs = finish_set H (fold (\<lambda>h acc. acc XOR shuffle_bits H h) hs 0) (length hs)"

definition hash_frozendict :: "('v, 'x) hashing_scheme \<Rightarrow> 'v pydict \<Rightarrow> 64 word" where
  "hash_frozendict H d =
     hash_frozenset H (map (\<lambda>(k, v). hash_tuple H [hash_str H k, hash_value H v]) d)"

definition request_hash :: "('v, 'x) hashing_scheme \<Rightarrow> 'v request \<Rightarrow> 64 word" where
  "request_hash H r =
     hash_struct H [hash_str H (req_path r), hash_str H (req_method r),
       hash_frozendict H (req_data r), hash_frozendict H (req_headers r),
       hash_str H (req_encoding r), hash_bool H (req_selenium r)]"

text \<open>A Python \<open>set\<close> of Requests, as the list of its members: a value joins the set unless a
  member has the same hash and is equal to it.\<close>

definition set_add :: "('v, 'x) hashing_scheme \<Rightarrow> 'v request list \<Rightarrow> 'v request \<Rightarrow> 'v request list"
  where
  "set_add H s x =
     (if list_ex (\<lambda>y. request_hash H y = request_hash H x \<and> request_eq y x) s then s
      else s @ [x])"

definition set_of :: "('v, 'x) hashing_scheme \<Rightarrow> 'v request list \<Rightarrow> 'v request list" where
  "set_of H xs = foldl (set_add H) [] xs"

subsection \<open>Entry\<close>

text \<open>\<open>Entry.format_id\<close>: the slice \<open>version_id[:len(source) + 1]\<close> is \<open>take\<close>, which like the
  slice never raises.\<close>

definition format_id :: "ustr \<Rightarrow> ustr \<Rightarrow> ustr" where
  "format_id version_id source =
     (if take (length source + 1) version_id = source @ [58] then version_id
      else source @ [58] @ version_id)"

record 'v entry =
  entry_request :: "'v request"
  entry_version_id :: ustr
  entry_source :: ustr
  entry_type :: "ustr option"
  entry_jurisdiction :: "ustr option"
  entry_date :: "ustr option"
  entry_title :: "ustr option"
  entry_other :: "'v pydict option"

text \<open>The constructor with \<open>__post_init__\<close>, which stores the formatted version id.\<close>

definition Entry ::
  "'v request \<Rightarrow> ustr \<Rightarrow> ustr \<Rightarrow> ustr option \<Rightarrow> ustr option \<Rightarrow> ustr option \<Rightarrow> ustr option
     \<Rightarrow> 'v pydict option \<Rightarrow> 'v entry" where
  "Entry request version_id source type jurisdiction date title other =
     \<lparr>entry_request = request, entry_version_id = format_id version_id source,
      entry_source = source, entry_type = type, entry_jurisdiction = jurisdiction,
      entry_date = date, entry_title = title, entry_other = other\<rparr>"

subsection \<open>Response\<close>

text \<open>
  A \<open>Response\<close> is a \<open>bytes\<close> object with three attributes. \<open>text\<close> and \<open>json\<close> are
  \<open>functools.cached_property\<close>: the first successful computation is stored in the instance's
  \<open>__dict__\<close> (the two cache fields below) and returned from there afterwards. \<open>html\<close> and
  \<open>stream\<close> are plain \<open>property\<close>: their body runs at every access.

  The decoder, the HTML parser and the JSON parser are libraries, hence parameters. The log
  of the calls made to them is not part of the program: it is there so that "computed
  once" can be stated.
\<close>

record ('e, 'h, 'j) weblib =
  decode :: "8 word list \<Rightarrow> ustr \<Rightarrow> 'e + ustr"
  BeautifulSoup :: "ustr \<Rightarrow> 'h"
  loads :: "8 word list \<Rightarrow> 'e + 'j"

record bytesio =
  buffer :: "8 word list"
  position :: nat

datatype call = DecodeCall | SoupCall | BytesIOCall | LoadsCall

record 'j response =
  payload :: "8 word list"
  resp_encoding :: ustr
  resp_type :: ustr
  resp_status :: int
  cache_text :: "ustr option"
  cache_json :: "'j option"
  calls :: "call list"

definition Response :: "8 word list \<Rightarrow> ustr \<Rightarrow> ustr \<Rightarrow> int \<Rightarrow> 'j response" where
  "Response bs encoding type status =
     \<lparr>payload = bs, resp_encoding = encoding, resp_type = type, resp_status = status,
      cache_text = None, cache_json = None, calls = []\<rparr>"

definition get_text ::
  "('e, 'h, 'j, 'x) weblib_scheme \<Rightarrow> 'j response \<Rightarrow> ('e + ustr) \<times> 'j response" where
  "get_text W r =
     (case cache_text r of
        Some t \<Rightarrow> (Inr t, r)
      | None \<Rightarrow>
         (case decode W (payload r) (resp_encoding r) of
            Inl e \<Rightarrow> (Inl e, r\<lparr>calls := calls r @ [DecodeCall]\<rparr>)
          | Inr t \<Rightarrow> (Inr t, r\<lparr>cache_text := Some t, calls := calls r @ [DecodeCall]\<rparr>)))"

definition get_html ::
  "('e, 'h, 'j, 'x) weblib_scheme \<Rightarrow> 'j response \<Rightarrow> ('e + 'h) \<times> 'j response" where
  "get_html W r =
     (case get_text W r of
        (Inl e, r') \<Rightarrow> (Inl e, r')
      | (Inr t, r') \<Rightarrow> (Inr (BeautifulSoup W t), r'\<lparr>calls := calls r' @ [SoupCall]\<rparr>))"

definition get_stream :: "'j response \<Rightarrow> bytesio \<times> 'j response" where
  "get_stream r =
     (\<lparr>buffer = payload r, position = 0\<rparr>, r\<lparr>calls := calls r @ [BytesIOCall]\<rparr>)"

definition get_json ::
  "('e, 'h, 'j, 'x) weblib_scheme \<Rightarrow> 'j response \<Rightarrow> ('e + 'j) \<times> 'j response" where
  "get_json W r =
     (case cache_json r of
        Some v \<Rightarrow> (Inr v, r)
      | None \<Rightarrow>
         (case loads W (payload r) of
            Inl e \<Rightarrow> (Inl e, r\<lparr>calls := calls r @ [LoadsCall]\<rparr>)
          | Inr v \<Rightarrow> (Inr v, r\<lparr>cache_json := Some v, calls := calls r @ [LoadsCall]\<rparr>)))"

text \<open>Any sequence of attribute reads on one instance.\<close>

datatype attr = text_attr | html_attr | stream_attr | json_attr

fun read :: "('e, 'h, 'j, 'x) weblib_scheme \<Rightarrow> attr \<Rightarrow> 'j response \<Rightarrow> 'j response" where
  "read W text_attr r = snd (get_text W r)"
| "read W html_attr r = snd (get_html W r)"
| "read W stream_attr r = snd (get_stream r)"
| "read W json_attr r = snd (get_json W r)"

definition reads :: "('e, 'h, 'j, 'x) weblib_scheme \<Rightarrow> attr list \<Rightarrow> 'j response \<Rightarrow> 'j response"
  where
  "reads W as r = fold (read W) as r"

definition count_calls :: "call \<Rightarrow> 'j response \<Rightarrow> nat" where
  "count_calls c r = count_list (calls r) c"

subsection \<open>Document and Section\<close>

record 'v document =
  doc_version_id :: ustr
  doc_type :: ustr
  doc_jurisdiction :: ustr
  doc_source :: ustr
  doc_mime :: ustr
  doc_date :: "ustr option"
  doc_citation :: ustr
  doc_url :: ustr
  doc_when_scraped :: ustr
  doc_text :: ustr
  doc_other :: "'v pydict option"

record section_struct =
  sec_id :: ustr
  sec_document_id :: ustr
  sec_type :: ustr
  sec_number :: ustr
  sec_title :: ustr
  sec_text :: ustr
  sec_citation :: ustr
  sec_url :: ustr
  sec_when_scraped :: ustr

text \<open>The fields the two structs declare, and those among them without a default.\<close>

definition document_fields :: "string list" where
  "document_fields = [''version_id'', ''type'', ''jurisdiction'', ''source'', ''mime'', ''date'',
     ''citation'', ''url'', ''when_scraped'', ''text'', ''other'']"

definition document_required :: "string list" where
  "document_required = [''version_id'', ''type'', ''jurisdiction'', ''source'', ''mime'', ''date'',
     ''citation'', ''url'', ''when_scraped'', ''text'']"

definition section_fields :: "string list" where
  "section_fields = [''id'', ''document_id'', ''type'', ''number'', ''title'', ''text'',
     ''citation'', ''url'', ''when_scraped'']"

text \<open>A \<open>msgspec.Struct\<close> called with keyword arguments raises \<open>TypeError\<close> on a keyword that
  is not a field, and on a required field that is not given.\<close>

definition kwargs_accepted :: "string list \<Rightarrow> string list \<Rightarrow> string list \<Rightarrow> bool" where
  "kwargs_accepted declared required given =
     (list_all (\<lambda>k. k \<in> set declared) given \<and> list_all (\<lambda>f. f \<in> set given) required)"

text \<open>\<^verbatim>\<open>re.sub(r'\W', '', text)\<close>\<close>

definition strip_nonword :: "pylib \<Rightarrow> ustr \<Rightarrow> ustr" where
  "strip_nonword L text = re_sub [One (\<lambda>c. \<not> is_word L c)] [] text"

text \<open>The message both functions pass to \<open>warning\<close>.\<close>

definition short_text_warning :: "ustr \<Rightarrow> ustr \<Rightarrow> ustr" where
  "short_text_warning url text =
     str ''The text of '' @ url
     @ str '' was, when stripped of non-alphabetic characters, less than 9 characters long. The text extracted was ''
     @ [34] @ text @ [34] @ str ''. Returning '' @ [96] @ str ''None'' @ [96] @ str ''.''"

text \<open>
  \<open>make_doc\<close> and \<open>make_section\<close> return the warnings they printed together with their
  value, \<open>None\<close> or the struct; an exception is \<open>Inl\<close>. \<open>now\<close> is the timestamp
  \<open>datetime.datetime.now().astimezone().isoformat()\<close>.
\<close>

definition make_doc ::
  "pylib \<Rightarrow> ustr \<Rightarrow> ustr \<Rightarrow> ustr \<Rightarrow> ustr \<Rightarrow> ustr \<Rightarrow> ustr \<Rightarrow> ustr option \<Rightarrow> ustr \<Rightarrow> ustr \<Rightarrow> ustr
     \<Rightarrow> py_error + (ustr list \<times> 'v document option)" where
  "make_doc L now version_id type jurisdiction source mime date citation0 url text0 =
     (case format_citation L citation0 type jurisdiction of
        Inl e \<Rightarrow> Inl e
      | Inr citation \<Rightarrow>
         (let text = clean_text text0 in
          if length (strip_nonword L text) < 9 then Inr ([short_text_warning url text], None)
          else if kwargs_accepted document_fields document_required
                    [''version_id'', ''type'', ''jurisdiction'', ''source'', ''mime'', ''date'',
                     ''citation'', ''url'', ''when_scraped'', ''text'']
          then Inr ([], Some \<lparr>doc_version_id = version_id, doc_type = type,
                 doc_jurisdiction = jurisdiction, doc_source = source, doc_mime = mime,
                 doc_date = date, doc_citation = citation, doc_url = url,
                 doc_when_scraped = now, doc_text = text, doc_other = None\<rparr>)
          else Inl TypeError))"

definition make_section ::
  "pylib \<Rightarrow> ustr \<Rightarrow> ustr \<Rightarrow> ustr \<Rightarrow> ustr \<Rightarrow> ustr \<Rightarrow> ustr \<Rightarrow> ustr \<Rightarrow> ustr \<Rightarrow> ustr
     \<Rightarrow> py_error + (ustr list \<times> section_struct option)" where
  "make_section L now version_id jurisdiction type number title citation0 url text0 =
     (case format_citation L citation0 type jurisdiction of
        Inl e \<Rightarrow> Inl e
      | Inr citation \<Rightarrow>
         (let text = clean_text text0 in
          if length (strip_nonword L text) < 9 then Inr ([short_text_warning url text], None)
          else if kwargs_accepted section_fields section_fields
                    [''id'', ''document_id'', ''type'', ''jurisdiction'', ''title'', ''number'',
                     ''citation'', ''url'', ''when_scraped'', ''text'']
          then Inr ([], Some \<lparr>sec_id = version_id @ [47] @ citation,
                 sec_document_id = version_id, sec_type = type, sec_number = number,
                 sec_title = title, sec_text = text, sec_citation = citation, sec_url = url,
                 sec_when_scraped = now\<rparr>)
          else Inl TypeError))"

section \<open>Helpers (helpers.py)\<close>

subsection \<open>alive_gather\<close>

text \<open>
  Awaiting task \<open>i\<close> gives a result (\<open>Inr\<close>) or raises (\<open>Inl\<close>). \<open>asyncio.as_completed\<close> hands
  the wrapped tasks over in the order in which they complete, so the input of the model is
  the list of pairs (index, outcome) in completion order: a permutation of
  \<open>enumerate(funcs)\<close>. The list comprehension awaits them one after the other and stops at
  the first that raises.
\<close>

fun await_all :: "(nat \<times> ('e + 'a)) list \<Rightarrow> 'e + (nat \<times> 'a) list" where
  "await_all [] = Inr []"
| "await_all ((i, Inl e) # cs) = Inl e"
| "await_all ((i, Inr v) # cs) =
     (case await_all cs of Inl e \<Rightarrow> Inl e | Inr res \<Rightarrow> Inr ((i, v) # res))"

text \<open>
  \<open>sorted(res)\<close> compares tuples: by the index where the indices differ, by the results
  (their own \<open><\<close>, the parameter \<open>lt\<close>) where the indices are equal and the results are
  not. \<open>sorted\<close> is stable and uses \<open><\<close> only; it is modelled by a stable insertion sort.
\<close>

definition tuple_less :: "('a \<Rightarrow> 'a \<Rightarrow> bool) \<Rightarrow> nat \<times> 'a \<Rightarrow> nat \<times> 'a \<Rightarrow> bool" where
  "tuple_less lt p q =
     (if fst p = fst q then snd p \<noteq> snd q \<and> lt (snd p) (snd q) else fst p < fst q)"

fun insert_sorted :: "('b \<Rightarrow> 'b \<Rightarrow> bool) \<Rightarrow> 'b \<Rightarrow> 'b list \<Rightarrow> 'b list" where
  "insert_sorted lessp x [] = [x]"
| "insert_sorted lessp x (y # ys) =
     (if lessp y x then y # insert_sorted lessp x ys else x # y # ys)"

definition sorted_py :: "('b \<Rightarrow> 'b \<Rightarrow> bool) \<Rightarrow> 'b list \<Rightarrow> 'b list" where
  "sorted_py lessp xs = foldr (insert_sorted lessp) xs []"

definition alive_gather :: "('a \<Rightarrow> 'a \<Rightarrow> bool) \<Rightarrow> (nat \<times> ('e + 'a)) list \<Rightarrow> 'e + 'a list" where
  "alive_gather lt completed =
     (case await_all completed of
        Inl e \<Rightarrow> Inl e
      | Inr res \<Rightarrow> Inr (map snd (sorted_py (tuple_less lt) res)))"

subsection \<open>batch_generator\<close>


section \<open>Properties of the data model\<close>

subsection \<open>Entry and format_id\<close>

lemma format_id_prefixed: "prefix (source @ [58]) (format_id version_id source)"
proof (cases "take (length source + 1) version_id = source @ [58]")
  case True
  have "prefix (take (length source + 1) version_id) version_id"
    by (rule take_is_prefix)
  with True show ?thesis by (simp add: format_id_def)
next
  case False
  then show ?thesis by (simp add: format_id_def)
qed

lemma take_prefix_iff: "take (length p) v = p \<longleftrightarrow> prefix p v"
  by (metis append_eq_conv_conj prefix_def take_is_prefix)

text \<open>
  Claim C7. The version id of every constructed Entry starts with the Entry's source
  followed by a colon. \<open>format_id\<close> returns an id that already starts with "source:"
  unchanged and puts "source:" in front of any other, so it maps "abc123" and
  "queensland_caselaw" to "queensland_caselaw:abc123", and applying it twice with the same
  source is applying it once.
\<close>

theorem entry_version_id_prefixed:
  "prefix (source @ str '':'') (entry_version_id (Entry req version_id source ty j d t other))
   \<and> entry_source (Entry req version_id source ty j d t other) = source
   \<and> format_id (str ''abc123'') (str ''queensland_caselaw'') = str ''queensland_caselaw:abc123''
   \<and> format_id (format_id version_id source) source = format_id version_id source
   \<and> format_id version_id source
       = (if prefix (source @ str '':'') version_id then version_id
          else source @ str '':'' @ version_id)"
proof -
  have colon: "str '':'' = [58]" by (simp add: str_def)
  have "take (length source + 1) version_id = source @ [58] \<longleftrightarrow> prefix (source @ [58]) version_id"
    using take_prefix_iff [of "source @ [58]" version_id] by simp
  then have unfolded: "format_id version_id source
       = (if prefix (source @ [58]) version_id then version_id else source @ [58] @ version_id)"
    by (simp add: format_id_def)
  have example: "format_id (str ''abc123'') (str ''queensland_caselaw'')
       = str ''queensland_caselaw:abc123''"
    by (simp add: format_id_def str_def)
  have twice: "format_id (format_id version_id source) source = format_id version_id source"
    by (simp add: format_id_def)
  show ?thesis
    unfolding colon using format_id_prefixed [of source version_id] example twice unfolded
    by (simp add: Entry_def)
qed

section \<open>Properties of the helpers\<close>

subsection \<open>batch_generator\<close>





subsection \<open>alive_gather\<close>

lemma await_all_Inr:
  "await_all (map (\<lambda>(i, v). (i, Inr v)) ps) = Inr ps"
  by (induction ps) auto

lemma tuple_less_fst:
  "fst p \<noteq> fst q \<Longrightarrow> tuple_less lt p q = (fst p < fst q)"
  by (simp add: tuple_less_def)

lemma set_insert_sorted: "set (insert_sorted lessp x ys) = insert x (set ys)"
  by (induction ys) auto

lemma insert_sorted_by_index:
  "sorted_wrt (\<lambda>p q. fst p < fst q) ys \<Longrightarrow> fst x \<notin> fst ` set ys \<Longrightarrow>
     sorted_wrt (\<lambda>p q. fst p < fst q) (insert_sorted (tuple_less lt) x ys)"
proof (induction ys)
  case Nil
  show ?case by simp
next
  case (Cons y ys)
  from Cons.prems have ne: "fst y \<noteq> fst x" by auto
  show ?case
  proof (cases "fst y < fst x")
    case True
    with ne have "insert_sorted (tuple_less lt) x (y # ys) = y # insert_sorted (tuple_less lt) x ys"
      by (simp add: tuple_less_fst)
    moreover have "sorted_wrt (\<lambda>p q. fst p < fst q) (insert_sorted (tuple_less lt) x ys)"
      using Cons by simp
    ultimately show ?thesis using Cons.prems True by (auto simp: set_insert_sorted)
  next
    case False
    with ne have lt: "fst x < fst y" by simp
    from False ne have "insert_sorted (tuple_less lt) x (y # ys) = x # y # ys"
      by (simp add: tuple_less_fst)
    then show ?thesis using Cons.prems lt by fastforce
  qed
qed

lemma sorted_py_by_index:
  "distinct (map fst xs) \<Longrightarrow>
     sorted_wrt (\<lambda>p q. fst p < fst q) (sorted_py (tuple_less lt) xs)
     \<and> set (sorted_py (tuple_less lt) xs) = set xs"
proof (induction xs)
  case Nil
  show ?case by (simp add: sorted_py_def)
next
  case (Cons x xs)
  then have IH: "sorted_wrt (\<lambda>p q. fst p < fst q) (sorted_py (tuple_less lt) xs)"
    "set (sorted_py (tuple_less lt) xs) = set xs" by auto
  from Cons.prems have "fst x \<notin> fst ` set (sorted_py (tuple_less lt) xs)"
    by (simp add: IH(2))
  from insert_sorted_by_index [OF IH(1) this, of lt] IH(2) show ?case
    by (simp add: sorted_py_def set_insert_sorted)
qed

lemma index_sorted_unique:
  fixes ys zs :: "(nat \<times> 'a) list"
  assumes ys: "sorted_wrt (\<lambda>p q. fst p < fst q) ys"
    and zs: "sorted_wrt (\<lambda>p q. fst p < fst q) zs"
    and same: "set ys = set zs"
    and inj: "distinct (map fst zs)"
  shows "ys = zs"
proof -
  have "sorted_wrt (<) (map fst ys)" "sorted_wrt (<) (map fst zs)"
    using ys zs by (simp_all add: sorted_wrt_map)
  moreover have "set (map fst ys) = set (map fst zs)" using same by simp
  ultimately have keys: "map fst ys = map fst zs"
    using strict_sorted_equal [of "map fst zs" "map fst ys"] by simp
  then have len: "length ys = length zs" by (metis length_map)
  have "ys ! i = zs ! i" if "i < length ys" for i
  proof -
    from that same obtain j where j: "j < length zs" "zs ! j = ys ! i"
      by (metis in_set_conv_nth nth_mem)
    have "fst (ys ! i) = fst (zs ! i)"
      using keys that len by (metis nth_map)
    with j have "map fst zs ! j = map fst zs ! i" using that len by simp
    moreover have "j < length (map fst zs)" "i < length (map fst zs)"
      using j(1) that len by simp_all
    ultimately have "j = i" using inj by (simp only: nth_eq_iff_index_eq)
    with j show ?thesis by simp
  qed
  with len show ?thesis by (simp add: list_eq_iff_nth_eq)
qed

text \<open>
  Claim C8. Let N tasks all return, task \<open>i\<close> returning \<open>results ! i\<close>, and let them
  complete in any order: \<open>finished\<close> is any permutation of the pairs (index, result). Then
  \<open>alive_gather\<close> returns exactly the N results in the order of its arguments, whatever the
  comparison of the results themselves is.
\<close>

theorem alive_gather_input_order:
  assumes "mset finished = mset (enumerate 0 results)"
  shows "alive_gather lt (map (\<lambda>(i, v). (i, Inr v)) finished) = Inr results
         \<and> length results = length finished"
proof -
  let ?by_index = "\<lambda>p q :: nat \<times> 'a. fst p < fst q"
  have "mset (map fst finished) = mset (map fst (enumerate 0 results))"
    using assms by (metis mset_map)
  then have "mset (map fst finished) = mset [0 ..< length results]"
    by (simp add: enumerate_eq_zip)
  then have dist: "distinct (map fst finished)"
    by (metis distinct_upt mset_eq_imp_distinct_iff)
  have target: "sorted_wrt ?by_index (enumerate 0 results)"
    by (simp add: sorted_wrt_map [symmetric, of "(<)" fst] enumerate_eq_zip)
  have dist': "distinct (map fst (enumerate 0 results))"
    by (simp add: enumerate_eq_zip)
  have same: "set (sorted_py (tuple_less lt) finished) = set (enumerate 0 results)"
    using sorted_py_by_index [OF dist, of lt] assms by (metis set_mset_mset)
  have "sorted_py (tuple_less lt) finished = enumerate 0 results"
    using index_sorted_unique [OF _ target same dist'] sorted_py_by_index [OF dist, of lt]
    by simp
  then have "alive_gather lt (map (\<lambda>(i, v). (i, Inr v)) finished) = Inr results"
    by (simp add: alive_gather_def await_all_Inr enumerate_eq_zip)
  moreover have "length results = length finished"
    using assms by (metis length_enumerate size_mset)
  ultimately show ?thesis by simp
qed

theorem alive_gather_input_order_witness:
  "mset [(2, CHR ''c''), (0, CHR ''a''), (1, CHR ''b'')] = mset (enumerate 0 ''abc'')
   \<and> (alive_gather (\<lambda>x y. False) [(2, Inr CHR ''c''), (0, Inr CHR ''a''), (1, Inr CHR ''b'')]
        :: unit + string) = Inr ''abc''"
proof -
  have perm: "mset [(2, CHR ''c''), (0, CHR ''a''), (1, CHR ''b'')] = mset (enumerate 0 ''abc'')"
    by (simp add: enumerate_eq_zip upt_rec)
  from alive_gather_input_order [OF perm, of "\<lambda>x y. False"] perm show ?thesis
    by simp
qed

section \<open>Properties of the normalizer\<close>

subsection \<open>Running the model on a given text\<close>

lemma re_sub_from_Some:
  "match_here pat pre rest adv 0 = Some k \<Longrightarrow>
   re_sub_from pat repl pre rest adv
     = repl @ re_sub_from pat repl (rev (take k rest) @ pre) (drop k rest) (k = 0)"
  by (subst re_sub_from.simps) simp

lemma re_sub_from_None:
  "match_here pat pre (c # cs) adv 0 = None \<Longrightarrow>
   re_sub_from pat repl pre (c # cs) adv = c # re_sub_from pat repl (c # pre) cs False"
  "match_here pat pre [] adv 0 = None \<Longrightarrow> re_sub_from pat repl pre [] adv = []"
  by (subst re_sub_from.simps, simp)+

lemma py_split_Nil:
  assumes "dropWhile is_space s = []"
  shows "py_split s = []"
  by (subst py_split.simps) (simp only: assms list.case)

lemma py_split_Cons:
  "dropWhile is_space s = c # cs \<Longrightarrow>
   py_split s = (c # takeWhile (\<lambda>x. \<not> is_space x) cs)
                  # py_split (dropWhile (\<lambda>x. \<not> is_space x) cs)"
  by (subst py_split.simps) (simp only: list.case)

lemmas run_re = re_sub_def re_sub_from_Some re_sub_from_None is_space_def
lemmas run_text = run_re clean_text_def str_def
lemmas run_split = py_split_Nil py_split_Cons

subsection \<open>clean_text\<close>

text \<open>
  Claim C4, on the code. A carriage return followed by a line feed stays as it is: only
  the four characters backslash, r, backslash, n become a line feed. A line of whitespace
  between two lines becomes two empty lines, so the text gains a line. Spaces at the end
  of the last line stay, also when a line feed followed them. A non-breaking space does
  become a space.
\<close>

theorem clean_text_defects:
  "clean_text [97, 13, 10, 98] = [97, 13, 10, 98]
   \<and> clean_text (str ''a\<newline> \<newline>b'') = str ''a\<newline>\<newline>\<newline>b''
   \<and> clean_text (str ''abc  '') = str ''abc  ''
   \<and> clean_text (str ''abc \<newline>'') = str ''abc ''
   \<and> clean_text [97, 92, 114, 92, 110, 98] = [97, 10, 98]
   \<and> clean_text [97, 160, 98] = [97, 32, 98]"
  by (simp add: run_text)

text \<open>
  Claim C5, on the code. \<open>clean_text\<close> is not idempotent: each application puts one more
  line feed into a run of line feeds. The text "a", empty line, "b" is cleaned to a text
  with two empty lines, and that one to a text with three.
\<close>

theorem clean_text_not_idempotent:
  "clean_text (str ''a\<newline>\<newline>b'') = str ''a\<newline>\<newline>\<newline>b''
   \<and> clean_text (clean_text (str ''a\<newline>\<newline>b'')) = str ''a\<newline>\<newline>\<newline>\<newline>b''
   \<and> clean_text (clean_text (str ''a\<newline>\<newline>b'')) \<noteq> clean_text (str ''a\<newline>\<newline>b'')"
proof -
  have once: "clean_text [97, 10, 10, 98] = [97, 10, 10, 10, 98]"
    by (simp add: run_text)
  have twice: "clean_text [97, 10, 10, 10, 98] = [97, 10, 10, 10, 10, 98]"
    by (simp add: run_text)
  show ?thesis using once twice by (simp add: str_def)
qed

subsection \<open>make_doc and make_section\<close>

lemma format_citation_X:
  "format_citation L (str ''X'') (str ''decision'') j = Inr (str ''X'')"
  by (simp add: format_citation_def html_unescape_def run_re run_split str_def)

text \<open>
  Claim C1, on the code. The test of both functions removes the characters that are not
  word characters (\<open>\W\<close>), and digits and the underscore are word characters: a text of ten
  digits, which has no alphabetic character at all, gives a populated Document. The text
  "12 34" gives nothing and one warning, as the claim says. \<open>make_section\<close> passes the
  keyword \<open>jurisdiction\<close> to \<open>Section\<close>, which has no such field: above the threshold it
  raises \<open>TypeError\<close> and returns no Section.
\<close>

theorem make_doc_counts_digits:
  "make_doc L now version_id (str ''decision'') j source mime date (str ''X'') url
      (str ''1234567890'')
     = Inr ([], Some \<lparr>doc_version_id = version_id, doc_type = str ''decision'',
          doc_jurisdiction = j, doc_source = source, doc_mime = mime, doc_date = date,
          doc_citation = str ''X'', doc_url = url, doc_when_scraped = now,
          doc_text = str ''1234567890'', doc_other = None\<rparr>)
   \<and> make_doc L now version_id (str ''decision'') j source mime date (str ''X'') url
      (str ''12 34'')
     = Inr ([short_text_warning url (str ''12 34'')], None)
   \<and> make_section L now version_id j (str ''decision'') number title (str ''X'') url
        (str ''Native Title Act'') = Inl TypeError"
proof -
  have digits: "clean_text (str ''1234567890'') = str ''1234567890''"
    by (simp add: run_text)
  have short: "clean_text (str ''12 34'') = str ''12 34''"
    by (simp add: run_text)
  have long: "clean_text (str ''Native Title Act'') = str ''Native Title Act''"
    by (simp add: run_text)
  have w1: "length (strip_nonword L (str ''1234567890'')) = 10"
    by (simp add: strip_nonword_def run_re is_word_def str_def)
  have w2: "length (strip_nonword L (str ''12 34'')) = 4"
    by (simp add: strip_nonword_def run_re is_word_def str_def)
  have w3: "length (strip_nonword L (str ''Native Title Act'')) = 14"
    by (simp add: strip_nonword_def run_re is_word_def str_def)
  have doc: "kwargs_accepted document_fields document_required
       [''version_id'', ''type'', ''jurisdiction'', ''source'', ''mime'', ''date'',
        ''citation'', ''url'', ''when_scraped'', ''text'']"
    by (simp add: kwargs_accepted_def document_fields_def document_required_def)
  have sec: "\<not> kwargs_accepted section_fields section_fields
       [''id'', ''document_id'', ''type'', ''jurisdiction'', ''title'', ''number'',
        ''citation'', ''url'', ''when_scraped'', ''text'']"
    by (simp add: kwargs_accepted_def section_fields_def)
  show ?thesis
    by (simp add: make_doc_def make_section_def format_citation_X digits short long w1 w2 w3
        doc sec del: One_nat_def)
qed

subsection \<open>Whitespace in a citation\<close>

text \<open>The statement \<^verbatim>\<open>re.sub(r'\s+', ' ', title)\<close> keeps the words of the title: the
  \<open>split\<close> that follows sees the same words with or without it.\<close>

lemma match_ws_plus:
  "match_here [Rep is_space 1] pre rest adv 0
     = (if takeWhile is_space rest = [] then None else Some (length (takeWhile is_space rest)))"
proof (cases "takeWhile is_space rest = []")
  case True
  then show ?thesis by simp
next
  case False
  then obtain m where m: "length (takeWhile is_space rest) = Suc m"
    by (cases "takeWhile is_space rest") auto
  have "rev [1 ..< Suc (Suc m)] = Suc m # rev [1 ..< Suc m]"
    by simp
  with False m show ?thesis by simp
qed

lemma py_split_space: "is_space c \<Longrightarrow> py_split (c # s) = py_split s"
  by (subst py_split.simps, subst (2) py_split.simps) simp

lemma py_split_dropWhile: "py_split (dropWhile is_space s) = py_split s"
  by (subst py_split.simps, subst (2) py_split.simps) simp

lemma py_split_nonspace:
  "\<not> is_space c \<Longrightarrow>
     py_split (c # s) = (c # takeWhile (\<lambda>x. \<not> is_space x) s)
                         # py_split (dropWhile (\<lambda>x. \<not> is_space x) s)"
  by (subst py_split.simps) simp

lemma py_split_word_rest:
  assumes "takeWhile (\<lambda>x. \<not> is_space x) a = takeWhile (\<lambda>x. \<not> is_space x) b"
    and "py_split a = py_split b"
  shows "py_split (dropWhile (\<lambda>x. \<not> is_space x) a) = py_split (dropWhile (\<lambda>x. \<not> is_space x) b)"
proof (cases "takeWhile (\<lambda>x. \<not> is_space x) a")
  case Nil
  with assms(1) have "dropWhile (\<lambda>x. \<not> is_space x) a = a" "dropWhile (\<lambda>x. \<not> is_space x) b = b"
    by (metis append_Nil takeWhile_dropWhile_id)+
  with assms(2) show ?thesis by simp
next
  case (Cons c w)
  then obtain a' where a: "a = c # a'" "\<not> is_space c"
    by (cases a) (auto split: if_splits)
  from Cons assms(1) obtain b' where b: "b = c # b'"
    by (cases b) (auto split: if_splits)
  from assms(2) show ?thesis
    unfolding a b using a(2) by (simp add: py_split_nonspace)
qed

lemma collapse_keeps_words:
  "takeWhile (\<lambda>x. \<not> is_space x) (re_sub_from [Rep is_space 1] [32] pre rest adv)
     = takeWhile (\<lambda>x. \<not> is_space x) rest
   \<and> py_split (re_sub_from [Rep is_space 1] [32] pre rest adv) = py_split rest"
proof (induction "[Rep is_space 1]" "[32::nat]" pre rest adv rule: re_sub_from.induct)
  case (1 pre rest adv)
  have sp: "is_space 32" by (simp add: is_space_def)
  show ?case
  proof (cases "takeWhile is_space rest = []")
    case True
    then have none: "match_here [Rep is_space 1] pre rest adv 0 = None"
      by (simp only: match_ws_plus) simp
    show ?thesis
    proof (cases rest)
      case Nil
      with none show ?thesis by (simp add: re_sub_from_None)
    next
      case (Cons c cs)
      with True have c: "\<not> is_space c" by (auto split: if_splits)
      from none Cons have eq: "re_sub_from [Rep is_space 1] [32] pre rest adv
          = c # re_sub_from [Rep is_space 1] [32] (c # pre) cs False"
        by (simp add: re_sub_from_None)
      note IH = "1.hyps"(1) [OF none Cons]
      from py_split_word_rest [OF conjunct1 [OF IH] conjunct2 [OF IH]] IH c
      show ?thesis unfolding eq unfolding Cons by (simp add: py_split_nonspace del: One_nat_def)
    qed
  next
    case False
    let ?k = "length (takeWhile is_space rest)"
    from False have some: "match_here [Rep is_space 1] pre rest adv 0 = Some ?k"
      by (simp only: match_ws_plus) simp
    from False obtain c cs where rest: "rest = c # cs" "is_space c"
      by (cases rest) (auto split: if_splits)
    have dr: "drop ?k rest = dropWhile is_space rest"
      by (metis append_eq_conv_conj takeWhile_dropWhile_id)
    from some have eq: "re_sub_from [Rep is_space 1] [32] pre rest adv
        = 32 # re_sub_from [Rep is_space 1] [32] (rev (take ?k rest) @ pre) (drop ?k rest) (?k = 0)"
      by (simp add: re_sub_from_Some)
    note IH = "1.hyps"(2) [OF some]
    have "py_split (re_sub_from [Rep is_space 1] [32] pre rest adv) = py_split (dropWhile is_space rest)"
      unfolding eq using IH sp by (simp add: py_split_space dr del: One_nat_def)
    moreover have "takeWhile (\<lambda>x. \<not> is_space x) (re_sub_from [Rep is_space 1] [32] pre rest adv) = []"
      unfolding eq using sp by (simp del: One_nat_def)
    ultimately show ?thesis using rest by (simp add: py_split_dropWhile py_split_space)
  qed
qed

lemma py_split_collapse: "py_split (re_sub [Rep is_space 1] [32] t) = py_split t"
  unfolding re_sub_def using collapse_keeps_words by blast

lemma py_split_words:
  "w \<in> set (py_split t) \<Longrightarrow> w \<noteq> [] \<and> (\<forall>c \<in> set w. \<not> is_space c)"
proof (induction t arbitrary: w rule: py_split.induct)
  case (1 s)
  show ?case
  proof (cases "dropWhile is_space s")
    case Nil
    with "1.prems" show ?thesis by (simp add: py_split_Nil)
  next
    case (Cons c cs)
    then have c: "\<not> is_space c" by (metis hd_dropWhile list.distinct(1) list.sel(1))
    from "1.prems" Cons have "w = c # takeWhile (\<lambda>x. \<not> is_space x) cs
        \<or> w \<in> set (py_split (dropWhile (\<lambda>x. \<not> is_space x) cs))"
      by (simp add: py_split_Cons)
    then show ?thesis
    proof
      assume "w = c # takeWhile (\<lambda>x. \<not> is_space x) cs"
      with c show ?thesis by (auto dest: set_takeWhileD)
    next
      assume "w \<in> set (py_split (dropWhile (\<lambda>x. \<not> is_space x) cs))"
      from "1.IH" [OF Cons this] show ?thesis .
    qed
  qed
qed

lemma concat_py_split: "concat (py_split t) = filter (\<lambda>c. \<not> is_space c) t"
proof (induction t rule: py_split.induct)
  case (1 s)
  have split: "filter (\<lambda>c. \<not> is_space c) s
      = filter (\<lambda>c. \<not> is_space c) (dropWhile is_space s)"
  proof -
    have "filter (\<lambda>c. \<not> is_space c) (takeWhile is_space s) = []"
      by (auto simp: filter_empty_conv dest: set_takeWhileD)
    then show ?thesis
      by (metis append_Nil filter_append takeWhile_dropWhile_id)
  qed
  show ?case
  proof (cases "dropWhile is_space s")
    case Nil
    with split show ?thesis by (simp add: py_split_Nil)
  next
    case (Cons c cs)
    then have c: "\<not> is_space c" by (metis hd_dropWhile list.distinct(1) list.sel(1))
    have "filter (\<lambda>c. \<not> is_space c) cs
        = takeWhile (\<lambda>x. \<not> is_space x) cs
          @ filter (\<lambda>c. \<not> is_space c) (dropWhile (\<lambda>x. \<not> is_space x) cs)"
    proof -
      have "filter (\<lambda>c. \<not> is_space c) (takeWhile (\<lambda>x. \<not> is_space x) cs)
          = takeWhile (\<lambda>x. \<not> is_space x) cs"
        by (auto simp: filter_id_conv dest: set_takeWhileD)
      then show ?thesis
        by (metis filter_append takeWhile_dropWhile_id)
    qed
    with "1.IH" [OF Cons] Cons c split show ?thesis
      by (simp add: py_split_Cons)
  qed
qed

lemma filter_py_join:
  "(\<forall>w \<in> set ws. \<forall>c \<in> set w. \<not> is_space c) \<Longrightarrow>
     filter (\<lambda>c. \<not> is_space c) (py_join [32] ws) = concat ws"
proof (induction "[32::nat]" ws rule: py_join.induct)
  case 1
  show ?case by simp
next
  case (2 w)
  then show ?case by (simp add: filter_id_conv)
next
  case (3 w v ws)
  have "is_space 32" by (simp add: is_space_def)
  with 3 show ?case by (simp add: filter_id_conv)
qed

lemma nonspace_kept:
  "filter (\<lambda>c. \<not> is_space c) (py_join [32] (py_split t)) = filter (\<lambda>c. \<not> is_space c) t"
  using filter_py_join [of "py_split t"] py_split_words [of _ t] concat_py_split [of t]
  by auto

lemma py_split_py_join:
  "(\<forall>w \<in> set ws. w \<noteq> [] \<and> (\<forall>c \<in> set w. \<not> is_space c)) \<Longrightarrow>
     py_split (py_join [32] ws) = ws"
proof (induction "[32::nat]" ws rule: py_join.induct)
  case 1
  show ?case by (simp add: py_split_Nil)
next
  case (2 w)
  then obtain c cs where w: "w = c # cs" by (cases w) auto
  with 2 have ns: "\<not> is_space c" "\<forall>x \<in> set cs. \<not> is_space x" by auto
  then have tw: "takeWhile (\<lambda>x. \<not> is_space x) cs = cs"
    and dw: "dropWhile (\<lambda>x. \<not> is_space x) cs = []"
    by (simp_all add: takeWhile_eq_all_conv)
  have "py_split [] = []" by (simp add: py_split_Nil)
  with ns(1) show ?case by (simp add: w py_split_nonspace tw dw)
next
  case (3 w v ws)
  have sp: "is_space 32" by (simp add: is_space_def)
  from 3 obtain c cs where w: "w = c # cs" by (cases w) auto
  with 3 have ns: "\<not> is_space c" "\<forall>x \<in> set cs. \<not> is_space x" by auto
  let ?rest = "py_join [32] (v # ws)"
  have tw: "takeWhile (\<lambda>x. \<not> is_space x) (cs @ 32 # ?rest) = cs"
    using ns(2) sp by (simp add: takeWhile_tail)
  have dw: "dropWhile (\<lambda>x. \<not> is_space x) (cs @ 32 # ?rest) = 32 # ?rest"
    using ns(2) sp by (simp add: dropWhile_append3 dropWhile_append1)
  have "py_split (py_join [32] (w # v # ws)) = w # py_split (32 # ?rest)"
    using ns(1) tw dw by (simp add: w py_split_nonspace)
  also have "py_split (32 # ?rest) = py_split ?rest"
    using sp by (rule py_split_space)
  also have "py_split ?rest = v # ws" using 3 by simp
  finally show ?case .
qed

subsection \<open>Citations of decisions\<close>

text \<open>
  Claim C6. For the type "decision" and every title and jurisdiction, also one that is not
  in the table, \<open>format_citation\<close> returns without raising, and what it returns is the
  words of the HTML-unescaped title joined by single spaces: the characters of the
  unescaped title that are not whitespace, in their order and nothing else besides the
  separating spaces, so no abbreviation in parentheses is appended; splitting the result
  again gives the same words.
\<close>

theorem format_citation_decision:
  "format_citation L title (str ''decision'') jurisdiction
     = Inr (py_join [32] (py_split (html_unescape L title)))
   \<and> filter (\<lambda>c. \<not> is_space c) (py_join [32] (py_split (html_unescape L title)))
     = filter (\<lambda>c. \<not> is_space c) (html_unescape L title)
   \<and> py_split (py_join [32] (py_split (html_unescape L title)))
     = py_split (html_unescape L title)"
proof -
  have "format_citation L title (str ''decision'') jurisdiction
      = Inr (py_join [32] (py_split (html_unescape L title)))"
    by (simp add: format_citation_def Let_def py_split_collapse del: One_nat_def)
  moreover have "py_split (py_join [32] (py_split (html_unescape L title)))
      = py_split (html_unescape L title)"
    by (rule py_split_py_join) (use py_split_words in blast)
  ultimately show ?thesis by (simp add: nonspace_kept)
qed

theorem format_citation_decision_witness:
  "\<forall>L. format_citation L (str ''  Mabo  v   Queensland '') (str ''decision'') (str ''nowhere'')
         = Inr (str ''Mabo v Queensland'')"
proof
  fix L
  have "html_unescape L (str ''  Mabo  v   Queensland '') = str ''  Mabo  v   Queensland ''"
    by (simp add: html_unescape_def str_def)
  moreover have "py_join [32] (py_split (str ''  Mabo  v   Queensland '')) = str ''Mabo v Queensland''"
    by (simp add: run_split is_space_def str_def)
  ultimately show "format_citation L (str ''  Mabo  v   Queensland '') (str ''decision'')
      (str ''nowhere'') = Inr (str ''Mabo v Queensland'')"
    using format_citation_decision [of L "str ''  Mabo  v   Queensland ''" "str ''nowhere''"]
    by simp
qed

subsection \<open>The suffix "No" and a number\<close>

text \<open>What a match of \<^verbatim>\<open> No\s+\d+$\<close> at a position looks like, and that the text from the
  position on matches whenever it has that form.\<close>

lemma first_some_SomeI: "x \<in> set xs \<Longrightarrow> f x \<noteq> None \<Longrightarrow> first_some f xs \<noteq> None"
  by (induction xs) (auto split: option.splits)

lemma match_Lit:
  "match_here (Lit c # pat) pre (c # xs) adv n = match_here pat (c # pre) xs adv (Suc n)"
  by simp

lemma match_Rep_SomeD:
  assumes "match_here (Rep P lo # pat) pre rest adv n = Some m"
  shows "\<exists>k. lo \<le> k \<and> k \<le> length (takeWhile P rest)
           \<and> match_here pat (rev (take k rest) @ pre) (drop k rest) adv (n + k) = Some m"
proof -
  from assms have "first_some
      (\<lambda>k. match_here pat (rev (take k rest) @ pre) (drop k rest) adv (n + k))
      (rev [lo ..< Suc (length (takeWhile P rest))]) = Some m"
    by simp
  from first_some_SomeD [OF this] show ?thesis by auto
qed

lemma match_Rep_SomeI:
  assumes "lo \<le> k" "k \<le> length (takeWhile P rest)"
    and "match_here pat (rev (take k rest) @ pre) (drop k rest) adv (n + k) \<noteq> None"
  shows "match_here (Rep P lo # pat) pre rest adv n \<noteq> None"
proof -
  from assms(1,2) have "k \<in> set (rev [lo ..< Suc (length (takeWhile P rest))])" by auto
  from first_some_SomeI [OF this, of "\<lambda>k. match_here pat (rev (take k rest) @ pre) (drop k rest) adv (n + k)"] assms(3)
  show ?thesis by simp
qed

lemma take_within_run:
  assumes "k \<le> length (takeWhile P xs)"
  shows "\<forall>c \<in> set (take k xs). P c"
proof -
  have "take k xs = take k (takeWhile P xs)"
    using assms by (metis append_eq_conv_conj min.absorb2 take_take takeWhile_dropWhile_id
        length_take min.commute)
  then show ?thesis
    by (metis in_set_takeD set_takeWhileD)
qed

lemma run_covers:
  assumes "\<forall>c \<in> set w. P c"
  shows "length w \<le> length (takeWhile P (w @ r))"
  using assms by (simp add: takeWhile_append2)

lemma match_no_shape:
  assumes "match_here [Lit 32, Lit 78, Lit 111, Rep is_space 1, Rep (is_digit L) 1, Eol]
             pre rest adv 0 = Some k"
  shows "\<exists>w d e. rest = [32, 78, 111] @ w @ d @ e \<and> w \<noteq> [] \<and> (\<forall>c \<in> set w. is_space c)
           \<and> d \<noteq> [] \<and> (\<forall>c \<in> set d. is_digit L c) \<and> (e = [] \<or> e = [10])
           \<and> k = 3 + length w + length d"
proof -
  from assms obtain r where rest: "rest = 32 # 78 # 111 # r"
    and m1: "match_here [Rep is_space 1, Rep (is_digit L) 1, Eol] (111 # 78 # 32 # pre) r adv 3 = Some k"
    by (auto split: list.splits if_splits simp: numeral_3_eq_3 simp del: match_here.simps(2)
        simp add: match_here.simps(2) [of "Lit _"])
  from match_Rep_SomeD [OF m1] obtain k1 where k1: "1 \<le> k1" "k1 \<le> length (takeWhile is_space r)"
    and m2: "match_here [Rep (is_digit L) 1, Eol] (rev (take k1 r) @ 111 # 78 # 32 # pre)
        (drop k1 r) adv (3 + k1) = Some k"
    by blast
  from match_Rep_SomeD [OF m2] obtain k2 where k2: "1 \<le> k2"
    "k2 \<le> length (takeWhile (is_digit L) (drop k1 r))"
    and m3: "match_here [Eol] (rev (take k2 (drop k1 r)) @ rev (take k1 r) @ 111 # 78 # 32 # pre)
        (drop k2 (drop k1 r)) adv (3 + k1 + k2) = Some k"
    by blast
  let ?w = "take k1 r" and ?d = "take k2 (drop k1 r)" and ?e = "drop k2 (drop k1 r)"
  from m3 have e: "?e = [] \<or> ?e = [10]" and k: "k = 3 + k1 + k2"
    by (auto split: if_splits)
  have lw: "length ?w = k1"
    using k1(2) length_takeWhile_le [of is_space r] by simp
  have ld: "length ?d = k2"
    using k2(2) length_takeWhile_le [of "is_digit L" "drop k1 r"] by simp
  have "?w @ ?d @ ?e = r" by (metis append_take_drop_id)
  then have "rest = [32, 78, 111] @ ?w @ ?d @ ?e" by (simp only: rest append_Cons append_Nil)
  moreover have "?w \<noteq> []" using lw k1(1) by auto
  moreover have "?d \<noteq> []" using ld k2(1) by auto
  moreover have "\<forall>c \<in> set ?w. is_space c" using take_within_run [OF k1(2)] .
  moreover have "\<forall>c \<in> set ?d. is_digit L c" using take_within_run [OF k2(2)] .
  moreover have "k = 3 + length ?w + length ?d" using k lw ld by simp
  ultimately show ?thesis using e by blast
qed

lemma match_no_exists:
  assumes "w \<noteq> []" "\<forall>c \<in> set w. is_space c" "d \<noteq> []" "\<forall>c \<in> set d. is_digit L c"
    and "e = [] \<or> e = [10]"
  shows "match_here [Lit 32, Lit 78, Lit 111, Rep is_space 1, Rep (is_digit L) 1, Eol]
           pre ([32, 78, 111] @ w @ d @ e) adv 0 \<noteq> None"
proof -
  let ?pre1 = "111 # 78 # 32 # pre"
  have eol: "match_here [Eol] p e adv (3 + length w + length d) \<noteq> None" for p
    using assms(5) by auto
  have dig: "match_here [Rep (is_digit L) 1, Eol] p (d @ e) adv (3 + length w) \<noteq> None" for p
  proof (rule match_Rep_SomeI [where k = "length d"])
    show "1 \<le> length d" using assms(3) by (cases d) auto
    show "length d \<le> length (takeWhile (is_digit L) (d @ e))"
      using run_covers [OF assms(4)] .
    show "match_here [Eol] (rev (take (length d) (d @ e)) @ p) (drop (length d) (d @ e)) adv
        (3 + length w + length d) \<noteq> None"
      using eol by simp
  qed
  have "match_here [Rep is_space 1, Rep (is_digit L) 1, Eol] ?pre1 (w @ d @ e) adv 3 \<noteq> None"
  proof (rule match_Rep_SomeI [where k = "length w"])
    show "1 \<le> length w" using assms(1) by (cases w) auto
    show "length w \<le> length (takeWhile is_space (w @ d @ e))"
      using run_covers [OF assms(2)] .
    show "match_here [Rep (is_digit L) 1, Eol] (rev (take (length w) (w @ d @ e)) @ ?pre1)
        (drop (length w) (w @ d @ e)) adv (3 + length w) \<noteq> None"
      using dig by simp
  qed
  then show ?thesis
    by (simp only: append_Cons append_Nil match_Lit numeral_3_eq_3 not_False_eq_True)
qed

lemma not_space_N: "\<not> is_space 78" by (simp add: is_space_def)
lemma not_digit_N: "\<not> is_digit L 78" by (simp add: is_digit_def)
lemma not_digit_lf: "\<not> is_digit L 10" by (simp add: is_digit_def)

lemma match_no_inside:
  assumes "\<forall>c \<in> set w. is_space c" "\<forall>c \<in> set d. is_digit L c"
  shows "match_here [Lit 32, Lit 78, Lit 111, Rep is_space 1, Rep (is_digit L) 1, Eol]
           pre (c # p @ [32, 78, 111] @ w @ d) adv 0 = None"
proof (rule ccontr)
  assume "match_here [Lit 32, Lit 78, Lit 111, Rep is_space 1, Rep (is_digit L) 1, Eol]
           pre (c # p @ [32, 78, 111] @ w @ d) adv 0 \<noteq> None"
  then obtain k where "match_here [Lit 32, Lit 78, Lit 111, Rep is_space 1, Rep (is_digit L) 1, Eol]
           pre (c # p @ [32, 78, 111] @ w @ d) adv 0 = Some k" by blast
  from match_no_shape [OF this] obtain w' d' e' where
    eq: "c # p @ [32, 78, 111] @ w @ d = [32, 78, 111] @ w' @ d' @ e'"
    and w': "\<forall>c \<in> set w'. is_space c" and d': "\<forall>c \<in> set d'. is_digit L c"
    and e': "e' = [] \<or> e' = [10]"
    by blast
  let ?X = "c # p @ [32, 78, 111] @ w @ d"
  let ?i = "length p + 2"
  have at: "?X ! ?i = 78" by (simp add: nth_append)
  have len: "?i < length ?X" by simp
  show False
  proof (cases p)
    case Nil
    with eq show False by simp
  next
    case (Cons a p')
    then have "?i = 3 + (length p')" by simp
    then have "([32, 78, 111] @ w' @ d' @ e') ! ?i = (w' @ d' @ e') ! length p'"
      by (simp add: nth_append numeral_3_eq_3)
    moreover have "length p' < length (w' @ d' @ e')"
    proof -
      have "length ?X = length ([32, 78, 111] @ w' @ d' @ e')" using eq by simp
      with Cons show ?thesis by simp
    qed
    ultimately have "78 \<in> set (w' @ d' @ e')"
      using at eq by (metis nth_mem)
    with w' d' e' not_space_N not_digit_N [of L] show False by auto
  qed
qed

lemma match_no_whole:
  assumes "w \<noteq> []" "\<forall>c \<in> set w. is_space c" "d \<noteq> []" "\<forall>c \<in> set d. is_digit L c"
  shows "match_here [Lit 32, Lit 78, Lit 111, Rep is_space 1, Rep (is_digit L) 1, Eol]
           pre ([32, 78, 111] @ w @ d) adv 0 = Some (3 + length w + length d)"
proof -
  let ?S = "[32, 78, 111] @ w @ d"
  from match_no_exists [OF assms, of "[]" pre adv] obtain k where
    k: "match_here [Lit 32, Lit 78, Lit 111, Rep is_space 1, Rep (is_digit L) 1, Eol]
           pre ?S adv 0 = Some k" by auto
  from match_no_shape [OF k] obtain w' d' e' where
    eq: "?S = [32, 78, 111] @ w' @ d' @ e'" and d': "d' \<noteq> []"
    and e': "e' = [] \<or> e' = [10]" and kk: "k = 3 + length w' + length d'"
    by blast
  have "e' = []"
  proof (rule ccontr)
    assume "e' \<noteq> []"
    with e' have "e' = [10]" by simp
    with eq have "last ?S = 10" by simp
    moreover have "last ?S = last d" using assms(3) by simp
    ultimately have "10 \<in> set d" using assms(3) by (metis last_in_set)
    with assms(4) not_digit_lf [of L] show False by auto
  qed
  with eq have "w @ d = w' @ d'" by simp
  then have "length (w @ d) = length (w' @ d')" by (rule arg_cong)
  with kk have "k = 3 + length w + length d" by simp
  with k show ?thesis by simp
qed

lemma strip_no_from:
  assumes "w \<noteq> []" "\<forall>c \<in> set w. is_space c" "d \<noteq> []" "\<forall>c \<in> set d. is_digit L c"
  shows "re_sub_from [Lit 32, Lit 78, Lit 111, Rep is_space 1, Rep (is_digit L) 1, Eol] []
           pre (p @ [32, 78, 111] @ w @ d) adv = p"
proof (induction p arbitrary: pre adv)
  case Nil
  let ?S = "[32, 78, 111] @ w @ d"
  have none: "match_here [Lit 32, Lit 78, Lit 111, Rep is_space 1, Rep (is_digit L) 1, Eol]
      q [] a 0 = None" for q a
    by simp
  have "drop (3 + length w + length d) ?S = []" by simp
  with match_no_whole [OF assms, of pre adv] none show ?case
    by (simp add: re_sub_from_Some re_sub_from_None del: match_here.simps)
next
  case (Cons c p)
  from match_no_inside [OF assms(2,4), of pre c p adv] Cons.IH show ?case
    by (simp add: re_sub_from_None del: match_here.simps)
qed

lemma strip_no_suffix:
  assumes "w \<noteq> []" "\<forall>c \<in> set w. is_space c" "d \<noteq> []" "\<forall>c \<in> set d. is_digit L c"
  shows "strip_no L (p @ str '' No'' @ w @ d) = p"
proof -
  have "str '' No'' = [32, 78, 111]" by (simp add: str_def)
  with strip_no_from [OF assms] show ?thesis by (simp add: strip_no_def re_sub_def)
qed

end
